theory Spec2Isabelle
  imports Complex_Main
begin

section \<open>Strings\<close>

text \<open>
  A Python \<open>str\<close> is modelled as a \<open>string\<close>; one \<open>char\<close> stands for one code point
  below 256, so \<open>length\<close> is Python's \<open>len\<close>.  The paragraph separator of
  \<open>chunk_text\<close> is the two-character string \<open>"\n\n"\<close>.
\<close>

definition NL :: char where
  "NL = CHR 0x0A"

definition para_sep :: string where
  "para_sep = [NL, NL]"

text \<open>
  \<open>str.isspace\<close> on the code points below 256: tab, line feed, vertical tab, form feed,
  carriage return, the four separators 0x1C to 0x1F, space, next line (0x85) and
  no-break space (0xA0).
\<close>

definition isspace :: "char \<Rightarrow> bool" where
  "isspace c = ((of_char c :: nat) \<in> {9, 10, 11, 12, 13, 28, 29, 30, 31, 32, 133, 160})"

text \<open>\<open>s.strip()\<close>: leading and trailing whitespace removed.\<close>

definition strip :: "string \<Rightarrow> string" where
  "strip s = rev (dropWhile isspace (rev (dropWhile isspace s)))"

text \<open>
  \<open>text.split('\n\n')\<close>: the pieces between the occurrences of the separator, found
  from the left without overlap.  The result always has at least one piece; the empty
  string gives one empty piece.
\<close>

fun split_nn :: "string \<Rightarrow> string list" where
  "split_nn [] = [[]]"
| "split_nn [c] = [[c]]"
| "split_nn (c # d # cs) =
     (if c = NL \<and> d = NL then [] # split_nn cs
      else (c # hd (split_nn (d # cs))) # tl (split_nn (d # cs)))"

text \<open>\<open>"\n\n".join(xs)\<close>.\<close>

fun join_nn :: "string list \<Rightarrow> string" where
  "join_nn [] = []"
| "join_nn [x] = x"
| "join_nn (x # y # ys) = x @ para_sep @ join_nn (y # ys)"

text \<open>
  \<open>len(text.split())\<close>: the number of maximal runs of non-whitespace characters.  The
  flag says whether the previous character belonged to a word.
\<close>

fun count_words :: "bool \<Rightarrow> string \<Rightarrow> nat" where
  "count_words inword [] = 0"
| "count_words inword (c # cs) =
     (if isspace c then count_words False cs
      else (if inword then 0 else 1) + count_words True cs)"

section \<open>The chunker\<close>

text \<open>
  The loop of \<open>chunk_text\<close> over the paragraphs.  The state is the pair of the list
  \<open>chunks\<close> and the buffer \<open>current_chunk\<close>; an empty buffer is falsy in Python.
\<close>

fun chunk_loop :: "int \<Rightarrow> string list \<Rightarrow> string list \<times> string \<Rightarrow> string list \<times> string" where
  "chunk_loop chunk_size [] st = st"
| "chunk_loop chunk_size (paragraph # rest) (chunks, current_chunk) =
     (if int (length current_chunk) + int (length paragraph) > chunk_size \<and> current_chunk \<noteq> []
      then chunk_loop chunk_size rest (chunks @ [strip current_chunk], paragraph)
      else chunk_loop chunk_size rest
             (chunks, if current_chunk \<noteq> [] then current_chunk @ para_sep @ paragraph
                      else paragraph))"

definition chunk_text :: "string \<Rightarrow> int \<Rightarrow> string list" where
  "chunk_text text chunk_size =
     (let paragraphs = split_nn text;
          (chunks, current_chunk) = chunk_loop chunk_size paragraphs ([], [])
      in if current_chunk \<noteq> [] then chunks @ [strip current_chunk] else chunks)"

subsection \<open>The paragraphs of a chunk\<close>

text \<open>
  A copy of the loop that keeps the paragraphs of the buffer apart: the buffer
  \<open>current_chunk\<close> is the join of the list \<open>current\<close>, and every chunk is the stripped join
  of a group.  It is not in the source; \<open>chunk_text_groups\<close> below proves that it
  computes the chunks of \<open>chunk_text\<close>.
\<close>

fun group_loop ::
  "int \<Rightarrow> string list \<Rightarrow> string list list \<times> string list \<Rightarrow> string list list \<times> string list" where
  "group_loop chunk_size [] st = st"
| "group_loop chunk_size (paragraph # rest) (groups, current) =
     (if int (length (join_nn current)) + int (length paragraph) > chunk_size
         \<and> join_nn current \<noteq> []
      then group_loop chunk_size rest (groups @ [current], [paragraph])
      else group_loop chunk_size rest
             (groups, if join_nn current \<noteq> [] then current @ [paragraph] else [paragraph]))"

definition chunk_groups :: "string \<Rightarrow> int \<Rightarrow> string list list" where
  "chunk_groups text chunk_size =
     (let (groups, current) = group_loop chunk_size (split_nn text) ([], [])
      in if join_nn current \<noteq> [] then groups @ [current] else groups)"

text \<open>
  A group within the size bound of the loop: a single paragraph, or a join of at most
  \<open>chunk_size + 2\<close> characters.
\<close>

definition bounded_group :: "int \<Rightarrow> string list \<Rightarrow> bool" where
  "bounded_group n g = (g \<noteq> [] \<and> (length g = 1 \<or> int (length (join_nn g)) \<le> n + 2))"

text \<open>
  The paragraphs of a text up to whitespace at their boundaries: the pieces between the
  separators, stripped, without the empty ones.
\<close>

definition nonempty_stripped :: "string list \<Rightarrow> string list" where
  "nonempty_stripped ps = filter (\<lambda>p. p \<noteq> []) (map strip ps)"

definition paragraphs_of :: "string \<Rightarrow> string list" where
  "paragraphs_of s = nonempty_stripped (split_nn s)"

text \<open>
  A list of pieces that splitting can produce: no piece contains a separator that the
  scan would find, and no piece but the last ends with a line feed.
\<close>

definition tight :: "string list \<Rightarrow> bool" where
  "tight ps = ((\<forall>p \<in> set ps. split_nn p = [p])
               \<and> (\<forall>p \<in> set (butlast ps). p = [] \<or> last p \<noteq> NL))"

section \<open>The LLM client\<close>

text \<open>
  Every call of \<open>client.chat.completions.create\<close> is a request to an external service.
  A request is identified by its call site and by the values interpolated into its
  prompt; the fixed prompt text, the model name, the temperature and \<open>max_tokens\<close> are
  constants of the call site.  Within one run all requests differ (in the call site or in
  the chunk number), so a function from requests to responses covers every behaviour of
  the service during a run.
\<close>

datatype request =
    ExtractReq string         \<comment> \<open>\<open>extract_key_info\<close>: \<open>text[:8000]\<close>\<close>
  | DirectReq string          \<comment> \<open>the direct summary of a short document: \<open>text\<close>\<close>
  | ChunkReq string nat nat   \<comment> \<open>\<open>summarize_chunk\<close>: chunk, chunk number, total chunks\<close>
  | CombineReq string         \<comment> \<open>\<open>combine_summaries\<close>: the joined chunk summaries\<close>
  | AnswerReq string string   \<comment> \<open>\<open>answer_question\<close>: question, \<open>text[:30000]\<close>\<close>

text \<open>
  A response carries the message content and the three token counts of \<open>usage\<close>
  (prompt, completion, total); \<open>Raises\<close> stands for any exception raised inside the
  \<open>try\<close> block of the call site, with its message.  The content of a completion is
  taken to be a string.
\<close>

datatype response =
    Completion string nat nat nat
  | Raises string

text \<open>
  Costs are Python floats.  The model leaves their arithmetic abstract: a cost is a
  value of any type with \<open>0\<close> and \<open>+\<close> (no law is assumed of them), and the tariff
  \<open>(prompt_tokens / 1000) * 0.00015 + (completion_tokens / 1000) * 0.0006\<close> is a
  parameter.  \<open>tariff_real\<close> is the tariff over the real numbers.
\<close>

record 'c env =
  client :: "request \<Rightarrow> response"
  tariff :: "nat \<Rightarrow> nat \<Rightarrow> 'c"

definition tariff_real :: "nat \<Rightarrow> nat \<Rightarrow> real" where
  "tariff_real prompt_tokens completion_tokens =
     (real prompt_tokens / 1000) * 0.00015 + (real completion_tokens / 1000) * 0.0006"

text \<open>
  The dictionaries returned by the sub-calls: \<open>Success\<close> has the text
  (\<open>summary\<close>, \<open>extraction\<close> or \<open>answer\<close>), \<open>tokens\<close> and \<open>cost\<close>; \<open>Failure\<close> has \<open>error\<close>.
\<close>

datatype 'c call_result =
    Success string nat 'c
  | Failure string

definition summarize_chunk :: "'c env \<Rightarrow> string \<Rightarrow> nat \<Rightarrow> nat \<Rightarrow> 'c call_result" where
  "summarize_chunk env chunk chunk_number total_chunks =
     (case client env (ChunkReq chunk chunk_number total_chunks) of
        Completion summary p c t \<Rightarrow> Success summary t (tariff env p c)
      | Raises e \<Rightarrow> Failure e)"

definition combine_summaries :: "'c env \<Rightarrow> string list \<Rightarrow> 'c call_result" where
  "combine_summaries env chunk_summaries =
     (let combined_text = join_nn chunk_summaries
      in case client env (CombineReq combined_text) of
           Completion final_summary p c t \<Rightarrow> Success final_summary t (tariff env p c)
         | Raises e \<Rightarrow> Failure e)"

definition extract_key_info :: "'c env \<Rightarrow> string \<Rightarrow> 'c call_result" where
  "extract_key_info env text =
     (case client env (ExtractReq (take 8000 text)) of
        Completion extraction p c t \<Rightarrow> Success extraction t (tariff env p c)
      | Raises e \<Rightarrow> Failure e)"

section \<open>The pipeline\<close>

record 'c pipeline_result =
  summary :: string
  key_info :: string
  total_cost :: 'c
  chunks_processed :: nat
  original_words :: nat

text \<open>
  The loop of \<open>advanced_summarize\<close> over \<open>enumerate(chunks, 1)\<close>.  Its state is
  \<open>chunk_summaries\<close>, \<open>total_cost\<close> and the log of the requests made so far.
\<close>

fun summarize_loop ::
  "'c::plus env \<Rightarrow> nat \<Rightarrow> (nat \<times> string) list \<Rightarrow> string list \<times> 'c \<times> request list
     \<Rightarrow> string list \<times> 'c \<times> request list" where
  "summarize_loop env n_chunks [] st = st"
| "summarize_loop env n_chunks ((i, chunk) # rest) (chunk_summaries, cost_so_far, calls) =
     (case summarize_chunk env chunk i n_chunks of
        Success s tokens cost \<Rightarrow>
          summarize_loop env n_chunks rest
            (chunk_summaries @ [s], cost_so_far + cost, calls @ [ChunkReq chunk i n_chunks])
      | Failure e \<Rightarrow>
          summarize_loop env n_chunks rest
            (chunk_summaries, cost_so_far, calls @ [ChunkReq chunk i n_chunks]))"

text \<open>
  \<open>advanced_summarize\<close> returns the log of the requests it made, in order, and its
  Python result: \<open>None\<close> or the result dictionary.  Console output is not modelled.
  In the short branch the variable \<open>chunks\<close> is never bound and never read; the model
  gives it the empty list there.
\<close>

definition advanced_summarize ::
  "'c::{zero,plus} env \<Rightarrow> string \<Rightarrow> request list \<times> 'c pipeline_result option" where
  "advanced_summarize env text =
     (let word_count = count_words False text;
          char_count = length text;
          extraction_result = extract_key_info env text;
          calls0 = [ExtractReq (take 8000 text)];
          total0 = (case extraction_result of
                      Success x t cost \<Rightarrow> 0 + cost
                    | Failure e \<Rightarrow> 0);
          finish = (\<lambda>final_summary cost chunks.
             \<lparr>summary = final_summary,
              key_info = (case extraction_result of
                            Success extraction t c \<Rightarrow> extraction
                          | Failure e \<Rightarrow> ''Extraction failed''),
              total_cost = cost,
              chunks_processed = (if char_count \<ge> 12000 then length chunks else 1),
              original_words = word_count\<rparr>)
      in if char_count < 12000 then
           (case client env (DirectReq text) of
              Completion s p c t \<Rightarrow>
                (calls0 @ [DirectReq text], Some (finish s (total0 + tariff env p c) []))
            | Raises e \<Rightarrow> (calls0 @ [DirectReq text], None))
         else
           (let chunks = chunk_text text 10000;
                (chunk_summaries, total1, calls1) =
                   summarize_loop env (length chunks) (enumerate 1 chunks) ([], total0, calls0)
            in if chunk_summaries = [] then (calls1, None)
               else if length chunks > 1 then
                 (case combine_summaries env chunk_summaries of
                    Success s t cost \<Rightarrow>
                      (calls1 @ [CombineReq (join_nn chunk_summaries)],
                       Some (finish s (total1 + cost) chunks))
                  | Failure e \<Rightarrow>
                      (calls1 @ [CombineReq (join_nn chunk_summaries)],
                       Some (finish (join_nn chunk_summaries) total1 chunks)))
               else (calls1, Some (finish (chunk_summaries ! 0) total1 chunks))))"

section \<open>Question answering\<close>

text \<open>
  The module state of \<open>document_qa.py\<close>: the dictionaries \<open>current_document\<close> and
  \<open>session_stats\<close> (whose key \<open>total_cost\<close> is the field \<open>session_cost\<close> here).
\<close>

record 'c qa_state =
  doc_text :: string
  doc_filename :: string
  doc_word_count :: nat
  questions_asked :: int
  session_cost :: 'c

definition answer_question ::
  "'c::plus env \<Rightarrow> 'c qa_state \<Rightarrow> string \<Rightarrow> 'c call_result \<times> 'c qa_state" where
  "answer_question env st question =
     (if doc_text st = []
      then (Failure ''No document loaded! Please load a document first.'', st)
      else
        (let text = take 30000 (doc_text st)
         in case client env (AnswerReq question text) of
              Completion answer p c t \<Rightarrow>
                (let cost = tariff env p c
                 in (Success answer t cost,
                     st\<lparr>questions_asked := questions_asked st + 1,
                        session_cost := session_cost st + cost\<rparr>))
            | Raises e \<Rightarrow> (Failure e, st)))"

section \<open>Observations on a run\<close>

text \<open>The requests of the chunk loop, in order.\<close>

definition chunk_requests :: "nat \<Rightarrow> (nat \<times> string) list \<Rightarrow> request list" where
  "chunk_requests n_chunks ics = map (\<lambda>(i, chunk). ChunkReq chunk i n_chunks) ics"

text \<open>The texts and the costs of the requests of a log that the client answers.\<close>

fun successful_texts :: "'c env \<Rightarrow> request list \<Rightarrow> string list" where
  "successful_texts env [] = []"
| "successful_texts env (rq # rqs) =
     (case client env rq of
        Completion s p c t \<Rightarrow> s # successful_texts env rqs
      | Raises e \<Rightarrow> successful_texts env rqs)"

fun successful_costs :: "'c env \<Rightarrow> request list \<Rightarrow> 'c list" where
  "successful_costs env [] = []"
| "successful_costs env (rq # rqs) =
     (case client env rq of
        Completion s p c t \<Rightarrow> tariff env p c # successful_costs env rqs
      | Raises e \<Rightarrow> successful_costs env rqs)"

fun is_combine :: "request \<Rightarrow> bool" where
  "is_combine (CombineReq x) = True"
| "is_combine rq = False"

fun is_extract :: "request \<Rightarrow> bool" where
  "is_extract (ExtractReq x) = True"
| "is_extract rq = False"

definition combiner_called :: "request list \<Rightarrow> bool" where
  "combiner_called calls = list_ex is_combine calls"

text \<open>The summaries of the chunks of a long document that are summarized with success.\<close>

definition chunk_successes :: "'c env \<Rightarrow> string \<Rightarrow> string list" where
  "chunk_successes env text =
     (let chunks = chunk_text text 10000
      in successful_texts env (chunk_requests (length chunks) (enumerate 1 chunks)))"

section \<open>Stub clients\<close>

text \<open>Clients with fixed answers and fixed token counts, for the concrete runs below.\<close>

fun client_first_chunk_only :: "request \<Rightarrow> response" where
  "client_first_chunk_only (ChunkReq chunk i n) =
     (if i = 1 then Completion ''first'' 1000 1000 2000 else Raises ''down'')"
| "client_first_chunk_only (CombineReq x) = Completion ''combined'' 2000 1000 3000"
| "client_first_chunk_only (ExtractReq x) = Completion ''facts'' 1000 2000 3000"
| "client_first_chunk_only rq = Raises ''down''"

fun client_no_combiner :: "request \<Rightarrow> response" where
  "client_no_combiner (ChunkReq chunk i n) =
     (if i = 1 then Completion ''first'' 1000 1000 2000 else Completion ''second'' 1000 1000 2000)"
| "client_no_combiner (CombineReq x) = Raises ''down''"
| "client_no_combiner (ExtractReq x) = Completion ''facts'' 1000 2000 3000"
| "client_no_combiner rq = Raises ''down''"

fun client_extract_only :: "request \<Rightarrow> response" where
  "client_extract_only (ExtractReq x) = Completion ''facts'' 1000 2000 3000"
| "client_extract_only rq = Raises ''down''"

fun client_no_extract :: "request \<Rightarrow> response" where
  "client_no_extract (ExtractReq x) = Raises ''down''"
| "client_no_extract rq = Completion ''text'' 1000 1000 2000"

definition stub_env :: "(request \<Rightarrow> response) \<Rightarrow> real env" where
  "stub_env c = \<lparr>client = c, tariff = tariff_real\<rparr>"

section \<open>Basic facts about splitting\<close>

lemma split_nn_not_Nil: "split_nn s \<noteq> []"
  by (induction s rule: split_nn.induct) auto

lemma split_nn_sep: "split_nn para_sep = [[], []]"
  by (simp add: para_sep_def)

section \<open>When the chunker returns chunks\<close>

lemma chunk_loop_nonempty_iff:
  "(fst (chunk_loop n ps (chunks, cur)) \<noteq> [] \<or> snd (chunk_loop n ps (chunks, cur)) \<noteq> [])
   \<longleftrightarrow> (chunks \<noteq> [] \<or> cur \<noteq> [] \<or> (\<exists>p \<in> set ps. p \<noteq> []))"
proof (induction ps arbitrary: chunks cur)
  case Nil
  show ?case by simp
next
  case (Cons p ps)
  show ?case
  proof (cases "int (length cur) + int (length p) > n \<and> cur \<noteq> []")
    case True
    then show ?thesis using Cons.IH [of "chunks @ [strip cur]" p] by auto
  next
    case False
    then show ?thesis
      using Cons.IH [of chunks "if cur \<noteq> [] then cur @ para_sep @ p else p"] by auto
  qed
qed

lemma chunk_text_Nil_iff:
  "chunk_text text n = [] \<longleftrightarrow> (\<forall>p \<in> set (split_nn text). p = [])"
proof -
  obtain chunks cur where st: "chunk_loop n (split_nn text) ([], []) = (chunks, cur)"
    by (cases "chunk_loop n (split_nn text) ([], [])")
  have "(chunks \<noteq> [] \<or> cur \<noteq> []) \<longleftrightarrow> (\<exists>p \<in> set (split_nn text). p \<noteq> [])"
    using chunk_loop_nonempty_iff [of n "split_nn text" "[]" "[]"] st by simp
  moreover have "chunk_text text n = [] \<longleftrightarrow> chunks = [] \<and> cur = []"
    using st by (simp add: chunk_text_def)
  ultimately show ?thesis by blast
qed

text \<open>
  Claim C5, as stated: \<open>chunk_text\<close> returns a non-empty sequence whenever the text is
  non-empty.  It fails on the text \<open>"\n\n"\<close>: both paragraphs are empty, the buffer stays
  empty and the final guard \<open>if current_chunk\<close> appends nothing.
\<close>

theorem chunk_text_nonempty_counterexample:
  "[NL, NL] \<noteq> [] \<and> chunk_text [NL, NL] 3000 = []"
  by (simp add: chunk_text_def para_sep_def)

text \<open>
  Claim C5, amended: \<open>chunk_text\<close> returns a non-empty sequence exactly when some
  paragraph of the text (a piece between \<open>"\n\n"\<close> separators) is non-empty; so the empty
  text, which has one empty paragraph, gives the empty sequence.
\<close>

theorem chunk_text_nonempty_iff:
  "(chunk_text text chunk_size \<noteq> [] \<longleftrightarrow> (\<exists>p \<in> set (split_nn text). p \<noteq> []))
   \<and> chunk_text [] chunk_size = []"
  using chunk_text_Nil_iff [of "text" chunk_size] chunk_text_Nil_iff [of "[]" chunk_size]
  by auto

theorem chunk_text_nonempty_iff_witness:
  "chunk_text ''ab'' 1 \<noteq> [] \<and> (\<exists>p \<in> set (split_nn ''ab''). p \<noteq> [])
   \<and> chunk_text [] 1 = []"
  using chunk_text_nonempty_iff [of "''ab''" 1] by (simp add: NL_def)

section \<open>The size of a chunk\<close>

lemma join_nn_snoc: "ps \<noteq> [] \<Longrightarrow> join_nn (ps @ [p]) = join_nn ps @ para_sep @ p"
  by (induction ps rule: join_nn.induct) auto

lemma join_nn_Nil_imp: "join_nn ps \<noteq> [] \<Longrightarrow> ps \<noteq> []"
  by auto

lemma chunk_loop_groups:
  "chunk_loop n ps (map (strip \<circ> join_nn) groups, join_nn cur) =
     (map (strip \<circ> join_nn) (fst (group_loop n ps (groups, cur))),
      join_nn (snd (group_loop n ps (groups, cur))))"
proof (induction ps arbitrary: groups cur)
  case Nil
  show ?case by simp
next
  case (Cons p ps)
  show ?case
  proof (cases "int (length (join_nn cur)) + int (length p) > n \<and> join_nn cur \<noteq> []")
    case True
    then show ?thesis using Cons.IH [of "groups @ [cur]" "[p]"] by simp
  next
    case False
    show ?thesis
    proof (cases "join_nn cur = []")
      case True
      then show ?thesis using False Cons.IH [of groups "[p]"] by simp
    next
      case nonempty: False
      then have "cur \<noteq> []" by auto
      then show ?thesis
        using False nonempty Cons.IH [of groups "cur @ [p]"] by (simp add: join_nn_snoc)
    qed
  qed
qed

lemma chunk_text_groups:
  "chunk_text text n = map (strip \<circ> join_nn) (chunk_groups text n)"
  using chunk_loop_groups [of n "split_nn text" "[]" "[]"]
  by (simp add: chunk_text_def chunk_groups_def split: prod.splits)

lemma group_loop_inv:
  assumes "\<forall>g \<in> set groups. bounded_group n g \<and> (\<exists>pre post. seen = pre @ g @ post)"
    and "cur = [] \<or> bounded_group n cur"
    and "\<exists>pre. seen = pre @ cur"
  shows "(\<forall>g \<in> set (fst (group_loop n ps (groups, cur))).
            bounded_group n g \<and> (\<exists>pre post. seen @ ps = pre @ g @ post))
       \<and> (snd (group_loop n ps (groups, cur)) = [] \<or> bounded_group n (snd (group_loop n ps (groups, cur))))
       \<and> (\<exists>pre. seen @ ps = pre @ snd (group_loop n ps (groups, cur)))"
  using assms
proof (induction ps arbitrary: groups cur seen)
  case Nil
  then show ?case by simp
next
  case (Cons p ps)
  from Cons.prems(3) obtain pre0 where pre0: "seen = pre0 @ cur" by blast
  have old: "\<forall>g \<in> set groups. bounded_group n g \<and> (\<exists>pre post. seen @ [p] = pre @ g @ post)"
  proof
    fix g assume "g \<in> set groups"
    with Cons.prems(1) obtain pre post where "bounded_group n g" "seen = pre @ g @ post" by blast
    then have "seen @ [p] = pre @ g @ (post @ [p])" by simp
    with \<open>bounded_group n g\<close> show "bounded_group n g \<and> (\<exists>pre post. seen @ [p] = pre @ g @ post)" by blast
  qed
  have single: "bounded_group n [p]" by (simp add: bounded_group_def)
  have suf1: "\<exists>pre. seen @ [p] = pre @ [p]" by blast
  show ?case
  proof (cases "int (length (join_nn cur)) + int (length p) > n \<and> join_nn cur \<noteq> []")
    case True
    then have "cur \<noteq> []" by auto
    with Cons.prems(2) have wc: "bounded_group n cur" by simp
    have "seen @ [p] = pre0 @ cur @ [p]" using pre0 by simp
    then have "\<exists>pre post. seen @ [p] = pre @ cur @ post" by blast
    with wc old have
      "\<forall>g \<in> set (groups @ [cur]). bounded_group n g \<and> (\<exists>pre post. seen @ [p] = pre @ g @ post)"
      by auto
    from Cons.IH [OF this _ suf1] single True show ?thesis by simp
  next
    case False
    show ?thesis
    proof (cases "join_nn cur = []")
      case True
      from Cons.IH [OF old _ suf1] single True False show ?thesis by simp
    next
      case nonempty: False
      then have ne: "cur \<noteq> []" by auto
      from False nonempty have "int (length (join_nn cur)) + int (length p) \<le> n" by simp
      then have "int (length (join_nn (cur @ [p]))) \<le> n + 2"
        using ne by (simp add: join_nn_snoc para_sep_def)
      then have w: "bounded_group n (cur @ [p])" by (simp add: bounded_group_def)
      have suf: "\<exists>pre. seen @ [p] = pre @ (cur @ [p])" using pre0 by simp
      from Cons.IH [OF old _ suf] w nonempty False show ?thesis by simp
    qed
  qed
qed

lemma chunk_groups_inv:
  "g \<in> set (chunk_groups text n) \<Longrightarrow>
   bounded_group n g \<and> (\<exists>pre post. split_nn text = pre @ g @ post)"
proof -
  assume g: "g \<in> set (chunk_groups text n)"
  obtain groups cur where st: "group_loop n (split_nn text) ([], []) = (groups, cur)"
    by (cases "group_loop n (split_nn text) ([], [])")
  have inv: "(\<forall>g \<in> set groups. bounded_group n g \<and> (\<exists>pre post. split_nn text = pre @ g @ post))
      \<and> (cur = [] \<or> bounded_group n cur) \<and> (\<exists>pre. split_nn text = pre @ cur)"
    using group_loop_inv [of "[]" n "[]" "[]" "split_nn text"] st by simp
  show ?thesis
  proof (cases "g \<in> set groups")
    case True
    with inv show ?thesis by blast
  next
    case False
    with g st have "g = cur" and "join_nn cur \<noteq> []"
      by (auto simp: chunk_groups_def split: if_splits)
    then have "cur \<noteq> []" by auto
    moreover from inv obtain pre where "split_nn text = pre @ cur @ []" by auto
    ultimately show ?thesis using inv \<open>g = cur\<close> by blast
  qed
qed

lemma length_strip_le: "length (strip s) \<le> length s"
proof -
  have "length (strip s) \<le> length (dropWhile isspace s)"
    unfolding strip_def using length_dropWhile_le [of isspace "rev (dropWhile isspace s)"] by simp
  also have "\<dots> \<le> length s" by (rule length_dropWhile_le)
  finally show ?thesis .
qed

lemma length_join_nn:
  "g \<noteq> [] \<Longrightarrow>
   int (length (join_nn g)) = int (sum_list (map length g)) + 2 * (int (length g) - 1)"
  by (induction g rule: join_nn.induct) (auto simp: para_sep_def)

text \<open>
  Claim C6, as stated: with the joins counted, no chunk is longer than \<open>chunk_size\<close>
  unless it is a single paragraph longer than \<open>chunk_size\<close>.  The test of the loop,
  \<open>len(current_chunk) + len(paragraph) > chunk_size\<close>, does not count the separator that
  the next line adds.  The text \<open>"a\n\nb"\<close> with \<open>chunk_size = 2\<close> has the two paragraphs
  \<open>"a"\<close> and \<open>"b"\<close>, each within the size, and gives the one chunk \<open>"a\n\nb"\<close> of four
  characters.
\<close>

theorem chunk_size_bound_counterexample:
  "split_nn [CHR ''a'', NL, NL, CHR ''b''] = [''a'', ''b'']
   \<and> chunk_text [CHR ''a'', NL, NL, CHR ''b''] 2 = [[CHR ''a'', NL, NL, CHR ''b'']]
   \<and> int (length [CHR ''a'', NL, NL, CHR ''b'']) > 2"
  by (simp add: chunk_text_def strip_def isspace_def NL_def para_sep_def)

text \<open>
  Claim C6, amended: every chunk is the stripped join of a run of consecutive paragraphs
  of the text, so no paragraph is split.  Unless the run is one paragraph longer than
  \<open>chunk_size\<close>, the chunk has at most \<open>chunk_size + 2\<close> characters, and its paragraphs
  have at most \<open>chunk_size\<close> characters in total: the length of the chunk less the two
  characters of each join is at most \<open>chunk_size\<close>.
\<close>

theorem chunk_size_bound:
  "c \<in> set (chunk_text text chunk_size) \<Longrightarrow>
   \<exists>ps pre post. split_nn text = pre @ ps @ post \<and> ps \<noteq> [] \<and> c = strip (join_nn ps)
      \<and> ((int (sum_list (map length ps)) \<le> chunk_size
           \<and> int (length c) - 2 * (int (length ps) - 1) \<le> chunk_size
           \<and> int (length c) \<le> chunk_size + 2)
          \<or> (length ps = 1 \<and> int (length (hd ps)) > chunk_size))"
proof -
  assume "c \<in> set (chunk_text text chunk_size)"
  then obtain g where g: "g \<in> set (chunk_groups text chunk_size)" and c: "c = strip (join_nn g)"
    by (auto simp: chunk_text_groups)
  from chunk_groups_inv [OF g] obtain pre post
    where w: "bounded_group chunk_size g" and run: "split_nn text = pre @ g @ post" by blast
  from w have ne: "g \<noteq> []" by (simp add: bounded_group_def)
  have le: "int (length c) \<le> int (length (join_nn g))" using c length_strip_le by simp
  note len = length_join_nn [OF ne]
  have "(int (sum_list (map length g)) \<le> chunk_size
           \<and> int (length c) - 2 * (int (length g) - 1) \<le> chunk_size
           \<and> int (length c) \<le> chunk_size + 2)
          \<or> (length g = 1 \<and> int (length (hd g)) > chunk_size)"
  proof (cases "length g = 1")
    case True
    then obtain p where p: "g = [p]" by (cases g) auto
    then show ?thesis using le by auto
  next
    case False
    with w have b: "int (length (join_nn g)) \<le> chunk_size + 2" by (simp add: bounded_group_def)
    from False ne have "length g \<ge> 2"
      by (cases g) (auto simp: Suc_le_eq)
    then have "int (length g) \<ge> 2" by simp
    with b le len show ?thesis by simp
  qed
  with run ne c show ?thesis by blast
qed

theorem chunk_size_bound_witness:
  "[CHR ''a'', NL, NL, CHR ''b''] \<in> set (chunk_text [CHR ''a'', NL, NL, CHR ''b''] 2)
   \<and> (\<exists>ps pre post. split_nn [CHR ''a'', NL, NL, CHR ''b''] = pre @ ps @ post \<and> ps \<noteq> []
        \<and> [CHR ''a'', NL, NL, CHR ''b''] = strip (join_nn ps)
        \<and> ((int (sum_list (map length ps)) \<le> 2
             \<and> int (length [CHR ''a'', NL, NL, CHR ''b'']) - 2 * (int (length ps) - 1) \<le> 2
             \<and> int (length [CHR ''a'', NL, NL, CHR ''b'']) \<le> 2 + 2)
            \<or> (length ps = 1 \<and> int (length (hd ps)) > 2)))"
proof -
  have m: "[CHR ''a'', NL, NL, CHR ''b''] \<in> set (chunk_text [CHR ''a'', NL, NL, CHR ''b''] 2)"
    by (simp add: chunk_text_def strip_def isspace_def NL_def para_sep_def)
  from chunk_size_bound [OF m] m show ?thesis by simp
qed

section \<open>The paragraphs of the chunks\<close>

lemma hd_tl_split_nn: "hd (split_nn s) # tl (split_nn s) = split_nn s"
  by (simp add: split_nn_not_Nil)

lemma last_split_nn_Cons:
  "last ((c # hd (split_nn s)) # tl (split_nn s)) =
     (if tl (split_nn s) = [] then c # hd (split_nn s) else last (split_nn s))"
  by (cases "split_nn s") (auto simp: split_nn_not_Nil)

lemma butlast_split_nn_Cons:
  "butlast ((c # hd (split_nn s)) # tl (split_nn s)) =
     (if tl (split_nn s) = [] then [] else (c # hd (split_nn s)) # tl (butlast (split_nn s)))"
  by (cases "split_nn s") (auto simp: split_nn_not_Nil)

lemma split_nn_append:
  "\<not> (last (split_nn xs) \<noteq> [] \<and> last (last (split_nn xs)) = NL \<and> ys \<noteq> [] \<and> hd ys = NL) \<Longrightarrow>
   split_nn (xs @ ys) =
     butlast (split_nn xs) @ [last (split_nn xs) @ hd (split_nn ys)] @ tl (split_nn ys)"
proof (induction xs rule: split_nn.induct)
  case 1
  show ?case by (simp add: hd_tl_split_nn)
next
  case (2 c)
  then show ?case by (cases ys) auto
next
  case (3 c d cs)
  show ?case
  proof (cases "c = NL \<and> d = NL")
    case True
    then show ?thesis using 3 by (simp add: split_nn_not_Nil)
  next
    case False
    let ?S = "split_nn (d # cs)"
    have S: "?S \<noteq> []" by (rule split_nn_not_Nil)
    have eq: "split_nn (c # d # cs) = (c # hd ?S) # tl ?S" using False by simp
    have cond: "\<not> (last ?S \<noteq> [] \<and> last (last ?S) = NL \<and> ys \<noteq> [] \<and> hd ys = NL)"
      using "3.prems" eq S by (cases ?S) (auto split: if_splits)
    have IH: "split_nn ((d # cs) @ ys) =
       butlast ?S @ [last ?S @ hd (split_nn ys)] @ tl (split_nn ys)"
      using "3.IH"(2) False cond by blast
    have "split_nn ((c # d # cs) @ ys) =
        (c # hd (split_nn ((d # cs) @ ys))) # tl (split_nn ((d # cs) @ ys))"
      using False by simp
    also have "\<dots> = butlast ((c # hd ?S) # tl ?S)
         @ [last ((c # hd ?S) # tl ?S) @ hd (split_nn ys)] @ tl (split_nn ys)"
      unfolding IH using S by (cases ?S) auto
    finally show ?thesis using eq by simp
  qed
qed

lemma isspace_NL: "isspace NL"
  by (simp add: isspace_def NL_def)

lemma set_split_nn: "p \<in> set (split_nn s) \<Longrightarrow> set p \<subseteq> set s"
proof (induction s arbitrary: p rule: split_nn.induct)
  case 1
  then show ?case by simp
next
  case (2 c)
  then show ?case by simp
next
  case (3 c d cs)
  show ?case
  proof (cases "c = NL \<and> d = NL")
    case True
    then show ?thesis using 3 by auto
  next
    case False
    let ?S = "split_nn (d # cs)"
    from False "3.prems" have "p = c # hd ?S \<or> p \<in> set (tl ?S)"
      by (auto split: if_splits)
    moreover have "hd ?S \<in> set ?S" by (simp add: split_nn_not_Nil)
    moreover have "set (tl ?S) \<subseteq> set ?S" by (cases ?S) auto
    ultimately show ?thesis using "3.IH"(2) False by fastforce
  qed
qed

lemma strip_all_space: "\<forall>c \<in> set s. isspace c \<Longrightarrow> strip s = []"
proof -
  assume "\<forall>c \<in> set s. isspace c"
  then have e: "dropWhile isspace s = []" by (induction s) auto
  show ?thesis unfolding strip_def e by simp
qed

lemma strip_space_append: "\<forall>c \<in> set w. isspace c \<Longrightarrow> strip (w @ x) = strip x"
proof -
  assume "\<forall>c \<in> set w. isspace c"
  then have "dropWhile isspace (w @ x) = dropWhile isspace x"
    by (intro dropWhile_append2) simp
  then show ?thesis by (simp add: strip_def)
qed

lemma strip_append_space: "\<forall>c \<in> set w. isspace c \<Longrightarrow> strip (x @ w) = strip x"
proof -
  assume w: "\<forall>c \<in> set w. isspace c"
  show ?thesis
  proof (cases "\<forall>c \<in> set x. isspace c")
    case True
    with w have "\<forall>c \<in> set (x @ w). isspace c" by auto
    then have "strip (x @ w) = []" by (rule strip_all_space)
    moreover have "strip x = []" using True by (rule strip_all_space)
    ultimately show ?thesis by simp
  next
    case False
    then obtain y where "y \<in> set x" "\<not> isspace y" by blast
    then have "dropWhile isspace (x @ w) = dropWhile isspace x @ w"
      by (rule dropWhile_append1)
    moreover have "dropWhile isspace (rev w @ rev (dropWhile isspace x))
        = dropWhile isspace (rev (dropWhile isspace x))"
      using w by (intro dropWhile_append2) simp
    ultimately show ?thesis by (simp add: strip_def)
  qed
qed

lemma nonempty_stripped_append:
  "nonempty_stripped (a @ b) = nonempty_stripped a @ nonempty_stripped b"
  by (simp add: nonempty_stripped_def)

lemma nonempty_stripped_space:
  "\<forall>p \<in> set ps. \<forall>c \<in> set p. isspace c \<Longrightarrow> nonempty_stripped ps = []"
  by (induction ps) (auto simp: nonempty_stripped_def strip_all_space)

lemma split_nn_space:
  "\<forall>c \<in> set w. isspace c \<Longrightarrow> \<forall>p \<in> set (split_nn w). \<forall>c \<in> set p. isspace c"
  using set_split_nn by blast

lemma last_split_nn:
  "s \<noteq> [] \<Longrightarrow> last s \<noteq> NL \<Longrightarrow> last (split_nn s) \<noteq> [] \<and> last (last (split_nn s)) = last s"
proof (induction s rule: split_nn.induct)
  case 1
  then show ?case by simp
next
  case (2 c)
  then show ?case by simp
next
  case (3 c d cs)
  show ?case
  proof (cases "c = NL \<and> d = NL")
    case True
    with "3.prems" have "cs \<noteq> []" by auto
    with True 3 show ?thesis by (simp add: split_nn_not_Nil)
  next
    case False
    let ?S = "split_nn (d # cs)"
    have eq: "split_nn (c # d # cs) = (c # hd ?S) # tl ?S" using False by simp
    have IH: "last ?S \<noteq> [] \<and> last (last ?S) = last (d # cs)"
      using "3.IH"(2) False "3.prems" by simp
    show ?thesis
    proof (cases "tl ?S = []")
      case True
      then have "?S = [hd ?S]" using split_nn_not_Nil [of "d # cs"] by (cases ?S) auto
      then have "last ?S = hd ?S" by (metis last.simps)
      with IH True show ?thesis unfolding eq by simp
    next
      case nonempty: False
      then have "last ((c # hd ?S) # tl ?S) = last ?S"
        by (simp add: last_tl)
      with IH show ?thesis unfolding eq by simp
    qed
  qed
qed

lemma open_end:
  "xs = [] \<or> last xs \<noteq> NL \<Longrightarrow>
   \<not> (last (split_nn xs) \<noteq> [] \<and> last (last (split_nn xs)) = NL \<and> ys \<noteq> [] \<and> hd ys = NL)"
  using last_split_nn [of xs] by (cases "xs = []") auto

lemma paragraphs_of_space_append:
  assumes w: "\<forall>c \<in> set w. isspace c" and ys: "ys = [] \<or> \<not> isspace (hd ys)"
  shows "paragraphs_of (w @ ys) = paragraphs_of ys"
proof -
  have "\<not> (last (split_nn w) \<noteq> [] \<and> last (last (split_nn w)) = NL \<and> ys \<noteq> [] \<and> hd ys = NL)"
    using ys isspace_NL by auto
  then have eq: "split_nn (w @ ys) =
     butlast (split_nn w) @ [last (split_nn w) @ hd (split_nn ys)] @ tl (split_nn ys)"
    by (rule split_nn_append)
  have pieces: "\<forall>p \<in> set (split_nn w). \<forall>c \<in> set p. isspace c"
    using w by (rule split_nn_space)
  have "\<forall>p \<in> set (butlast (split_nn w)). \<forall>c \<in> set p. isspace c"
    using pieces by (meson in_set_butlastD)
  then have b: "nonempty_stripped (butlast (split_nn w)) = []"
    by (rule nonempty_stripped_space)
  have "\<forall>c \<in> set (last (split_nn w)). isspace c"
    using pieces last_in_set [OF split_nn_not_Nil [of w]] by blast
  then have m: "strip (last (split_nn w) @ hd (split_nn ys)) = strip (hd (split_nn ys))"
    by (rule strip_space_append)
  have "nonempty_stripped (split_nn (w @ ys)) =
          nonempty_stripped ([hd (split_nn ys)] @ tl (split_nn ys))"
    unfolding eq nonempty_stripped_append b
    by (simp add: nonempty_stripped_def m)
  then show ?thesis by (simp add: paragraphs_of_def hd_tl_split_nn)
qed

lemma paragraphs_of_append_space:
  assumes w: "\<forall>c \<in> set w. isspace c" and xs: "xs = [] \<or> \<not> isspace (last xs)"
  shows "paragraphs_of (xs @ w) = paragraphs_of xs"
proof -
  have "xs = [] \<or> last xs \<noteq> NL" using xs isspace_NL by auto
  then have "\<not> (last (split_nn xs) \<noteq> [] \<and> last (last (split_nn xs)) = NL \<and> w \<noteq> [] \<and> hd w = NL)"
    by (rule open_end)
  then have eq: "split_nn (xs @ w) =
     butlast (split_nn xs) @ [last (split_nn xs) @ hd (split_nn w)] @ tl (split_nn w)"
    by (rule split_nn_append)
  have pieces: "\<forall>p \<in> set (split_nn w). \<forall>c \<in> set p. isspace c"
    using w by (rule split_nn_space)
  have "\<forall>p \<in> set (tl (split_nn w)). \<forall>c \<in> set p. isspace c"
    using pieces by (meson list.set_sel(2) split_nn_not_Nil)
  then have t: "nonempty_stripped (tl (split_nn w)) = []"
    by (rule nonempty_stripped_space)
  have "\<forall>c \<in> set (hd (split_nn w)). isspace c"
    using pieces hd_in_set [OF split_nn_not_Nil [of w]] by blast
  then have m: "strip (last (split_nn xs) @ hd (split_nn w)) = strip (last (split_nn xs))"
    by (rule strip_append_space)
  have "nonempty_stripped (split_nn (xs @ w)) =
          nonempty_stripped (butlast (split_nn xs) @ [last (split_nn xs)])"
    unfolding eq nonempty_stripped_append t
    by (simp add: nonempty_stripped_def m)
  then show ?thesis by (simp add: paragraphs_of_def split_nn_not_Nil)
qed

lemma strip_decomp:
  "\<exists>w1 w2. s = w1 @ strip s @ w2 \<and> (\<forall>c \<in> set w1. isspace c) \<and> (\<forall>c \<in> set w2. isspace c)"
proof -
  let ?m = "dropWhile isspace s"
  have 1: "s = takeWhile isspace s @ ?m" by simp
  have "?m = rev (dropWhile isspace (rev ?m)) @ rev (takeWhile isspace (rev ?m))"
    by (metis rev_append rev_rev_ident takeWhile_dropWhile_id)
  then have "s = takeWhile isspace s @ strip s @ rev (takeWhile isspace (rev ?m))"
    using 1 by (simp add: strip_def)
  moreover have "\<forall>c \<in> set (takeWhile isspace s). isspace c"
    by (meson set_takeWhileD)
  moreover have "\<forall>c \<in> set (rev (takeWhile isspace (rev ?m))). isspace c"
    by (metis set_rev set_takeWhileD)
  ultimately show ?thesis by blast
qed

lemma strip_ends:
  "strip s = [] \<or> (\<not> isspace (hd (strip s)) \<and> \<not> isspace (last (strip s)))"
proof (cases "strip s = []")
  case True
  then show ?thesis by simp
next
  case False
  let ?m = "dropWhile isspace s"
  let ?r = "dropWhile isspace (rev ?m)"
  from False have r: "?r \<noteq> []" by (simp add: strip_def)
  then have "\<not> isspace (hd ?r)" by (rule hd_dropWhile)
  then have l: "\<not> isspace (last (strip s))"
    using r by (simp add: strip_def last_rev)
  have m: "?m \<noteq> []"
  proof
    assume e: "?m = []"
    have "?r = []" unfolding e by simp
    with r show False by simp
  qed
  then have hm: "\<not> isspace (hd ?m)" by (rule hd_dropWhile)
  have "?m = rev ?r @ rev (takeWhile isspace (rev ?m))"
    by (metis rev_append rev_rev_ident takeWhile_dropWhile_id)
  then have "hd ?m = hd (rev ?r)" using r by (metis hd_append2 rev_is_Nil_conv)
  with hm have "\<not> isspace (hd (strip s))" by (simp add: strip_def)
  with l show ?thesis by simp
qed

lemma paragraphs_of_strip: "paragraphs_of (strip s) = paragraphs_of s"
proof -
  obtain w1 w2 where s: "s = w1 @ strip s @ w2"
    and w1: "\<forall>c \<in> set w1. isspace c" and w2: "\<forall>c \<in> set w2. isspace c"
    using strip_decomp by blast
  show ?thesis
  proof (cases "strip s = []")
    case True
    with s w1 w2 have "\<forall>c \<in> set s. isspace c" by (metis Un_iff append_Nil set_append)
    then have "paragraphs_of s = []"
      unfolding paragraphs_of_def by (intro nonempty_stripped_space split_nn_space)
    moreover have "paragraphs_of [] = []"
      by (simp add: paragraphs_of_def nonempty_stripped_def strip_def)
    ultimately show ?thesis using True by simp
  next
    case False
    with strip_ends [of s] have e: "\<not> isspace (hd (strip s))" "\<not> isspace (last (strip s))"
      by auto
    have "paragraphs_of (strip s @ w2) = paragraphs_of (strip s)"
      using w2 e by (intro paragraphs_of_append_space) auto
    moreover have "paragraphs_of (w1 @ (strip s @ w2)) = paragraphs_of (strip s @ w2)"
      using w1 e False by (intro paragraphs_of_space_append) auto
    ultimately show ?thesis using s by simp
  qed
qed

lemma split_nn_sep_Cons: "split_nn (para_sep @ s) = [] # split_nn s"
  by (simp add: para_sep_def)

lemma split_nn_closed_sep:
  assumes "split_nn x = [x]" and "x = [] \<or> last x \<noteq> NL"
  shows "split_nn (x @ para_sep @ s) = x # split_nn s"
proof -
  have "\<not> (last (split_nn x) \<noteq> [] \<and> last (last (split_nn x)) = NL
            \<and> para_sep @ s \<noteq> [] \<and> hd (para_sep @ s) = NL)"
    using assms by auto
  from split_nn_append [OF this] show ?thesis
    using assms(1) by (simp add: split_nn_sep_Cons)
qed

lemma split_join:
  "tight ps \<Longrightarrow> ps \<noteq> [] \<Longrightarrow> split_nn (join_nn ps) = ps"
proof (induction ps rule: join_nn.induct)
  case 1
  then show ?case by simp
next
  case (2 x)
  then show ?case by (simp add: tight_def)
next
  case (3 x y ys)
  from "3.prems"(1) have x: "split_nn x = [x]" "x = [] \<or> last x \<noteq> NL"
    and t: "tight (y # ys)"
    by (auto simp: tight_def)
  have "split_nn (join_nn (y # ys)) = y # ys" using "3.IH" t by simp
  then show ?case using split_nn_closed_sep [OF x] by simp
qed

lemma hd_split_nn_Nil:
  "hd (split_nn s) = [] \<Longrightarrow> tl (split_nn s) \<noteq> [] \<Longrightarrow> \<exists>r. s = NL # NL # r"
proof (induction s rule: split_nn.induct)
  case 1
  then show ?case by simp
next
  case (2 c)
  then show ?case by simp
next
  case (3 c d cs)
  then show ?case by (auto split: if_splits)
qed

lemma hd_hd_split_nn:
  "hd (split_nn s) \<noteq> [] \<Longrightarrow> hd (hd (split_nn s)) = hd s"
proof (induction s rule: split_nn.induct)
  case 1
  then show ?case by simp
next
  case (2 c)
  then show ?case by simp
next
  case (3 c d cs)
  then show ?case by (auto split: if_splits)
qed

lemma solid_Cons:
  assumes p: "split_nn p = [p]" and c: "\<not> (c = NL \<and> p \<noteq> [] \<and> hd p = NL)"
  shows "split_nn (c # p) = [c # p]"
proof (cases p)
  case Nil
  then show ?thesis by simp
next
  case (Cons d ds)
  with c have "\<not> (c = NL \<and> d = NL)" by simp
  then show ?thesis using p Cons by simp
qed

lemma tight_split_nn: "tight (split_nn s)"
proof (induction s rule: split_nn.induct)
  case 1
  show ?case by (simp add: tight_def)
next
  case (2 c)
  show ?case by (simp add: tight_def)
next
  case (3 c d cs)
  show ?case
  proof (cases "c = NL \<and> d = NL")
    case True
    then have "tight (split_nn cs)" using "3.IH"(1) by simp
    then show ?thesis using True split_nn_not_Nil [of cs]
      by (auto simp: tight_def)
  next
    case False
    let ?S = "split_nn (d # cs)"
    have S: "?S \<noteq> []" by (rule split_nn_not_Nil)
    have IH: "tight ?S" using "3.IH"(2) False by blast
    have eq: "split_nn (c # d # cs) = (c # hd ?S) # tl ?S" using False by simp
    have hdS: "split_nn (hd ?S) = [hd ?S]"
      using IH S by (simp add: tight_def)
    have "\<not> (c = NL \<and> hd ?S \<noteq> [] \<and> hd (hd ?S) = NL)"
      using hd_hd_split_nn [of "d # cs"] False by auto
    with hdS have solid: "split_nn (c # hd ?S) = [c # hd ?S]" by (rule solid_Cons)
    have rest: "\<forall>p \<in> set (tl ?S). split_nn p = [p]"
      using IH by (metis list.set_sel(2) S tight_def)
    have closed: "\<forall>p \<in> set (butlast ((c # hd ?S) # tl ?S)). p = [] \<or> last p \<noteq> NL"
    proof (cases "tl ?S = []")
      case True
      then show ?thesis by simp
    next
      case nonempty: False
      have hS: "hd ?S \<in> set (butlast ?S)"
        using nonempty S by (cases ?S) auto
      then have h: "hd ?S = [] \<or> last (hd ?S) \<noteq> NL" using IH by (simp add: tight_def)
      have first: "last (c # hd ?S) \<noteq> NL"
      proof (cases "hd ?S = []")
        case True
        with hd_split_nn_Nil [OF True nonempty] have "d = NL" by auto
        with False have "c \<noteq> NL" by simp
        with True show ?thesis by simp
      next
        case False
        with h show ?thesis by simp
      qed
      have "set (butlast (tl ?S)) \<subseteq> set (butlast ?S)"
        using S by (cases ?S) auto
      then have "\<forall>p \<in> set (butlast (tl ?S)). p = [] \<or> last p \<noteq> NL"
        using IH by (auto simp: tight_def)
      with first nonempty show ?thesis by simp
    qed
    show ?thesis unfolding eq tight_def using solid rest closed by simp
  qed
qed

lemma tight_run: "tight (pre @ g @ post) \<Longrightarrow> tight g"
proof -
  assume t: "tight (pre @ g @ post)"
  have "set (butlast g) \<subseteq> set (butlast (pre @ g @ post))"
    by (cases "g = []") (auto simp: butlast_append dest: in_set_butlastD)
  with t show ?thesis by (auto simp: tight_def)
qed

lemma paragraphs_of_Nil: "paragraphs_of [] = []"
  by (simp add: paragraphs_of_def nonempty_stripped_def strip_def)

lemma paragraphs_of_join:
  "\<forall>c \<in> set cs. c = [] \<or> last c \<noteq> NL \<Longrightarrow>
   paragraphs_of (join_nn cs) = concat (map paragraphs_of cs)"
proof (induction cs rule: join_nn.induct)
  case 1
  show ?case by (simp add: paragraphs_of_Nil)
next
  case (2 x)
  show ?case by simp
next
  case (3 x y ys)
  from "3.prems" have "x = [] \<or> last x \<noteq> NL" by simp
  then have "\<not> (last (split_nn x) \<noteq> [] \<and> last (last (split_nn x)) = NL
            \<and> para_sep @ join_nn (y # ys) \<noteq> [] \<and> hd (para_sep @ join_nn (y # ys)) = NL)"
    by (rule open_end)
  from split_nn_append [OF this]
  have "split_nn (x @ para_sep @ join_nn (y # ys)) = split_nn x @ split_nn (join_nn (y # ys))"
    by (simp add: split_nn_sep_Cons split_nn_not_Nil)
  then have "paragraphs_of (join_nn (x # y # ys)) =
      paragraphs_of x @ paragraphs_of (join_nn (y # ys))"
    by (simp add: paragraphs_of_def nonempty_stripped_append)
  then show ?case using "3.IH" "3.prems" by simp
qed

lemma join_nn_Nil_cases: "join_nn ps = [] \<Longrightarrow> ps = [] \<or> ps = [[]]"
  by (induction ps rule: join_nn.induct) (auto simp: para_sep_def)

lemma nonempty_stripped_dropped: "join_nn ps = [] \<Longrightarrow> nonempty_stripped ps = []"
  using join_nn_Nil_cases [of ps] by (auto simp: nonempty_stripped_def strip_def)

lemma group_loop_paragraphs:
  "nonempty_stripped (concat (fst (group_loop n ps (groups, cur))) @ snd (group_loop n ps (groups, cur)))
     = nonempty_stripped (concat groups @ cur @ ps)"
proof (induction ps arbitrary: groups cur)
  case Nil
  show ?case by simp
next
  case (Cons p ps)
  show ?case
  proof (cases "int (length (join_nn cur)) + int (length p) > n \<and> join_nn cur \<noteq> []")
    case True
    then show ?thesis using Cons.IH [of "groups @ [cur]" "[p]"] by simp
  next
    case False
    show ?thesis
    proof (cases "join_nn cur = []")
      case True
      then have "nonempty_stripped cur = []" by (rule nonempty_stripped_dropped)
      then show ?thesis
        using False True Cons.IH [of groups "[p]"] by (simp add: nonempty_stripped_append)
    next
      case nonempty: False
      then show ?thesis using False Cons.IH [of groups "cur @ [p]"] by simp
    qed
  qed
qed

lemma chunk_groups_paragraphs:
  "nonempty_stripped (concat (chunk_groups text n)) = paragraphs_of text"
proof -
  obtain groups cur where st: "group_loop n (split_nn text) ([], []) = (groups, cur)"
    by (cases "group_loop n (split_nn text) ([], [])")
  have all: "nonempty_stripped (concat groups @ cur) = paragraphs_of text"
    using group_loop_paragraphs [of n "split_nn text" "[]" "[]"] st
    by (simp add: paragraphs_of_def)
  show ?thesis
  proof (cases "join_nn cur = []")
    case True
    then have "nonempty_stripped cur = []" by (rule nonempty_stripped_dropped)
    with all True st show ?thesis
      by (simp add: chunk_groups_def nonempty_stripped_append)
  next
    case False
    with all st show ?thesis by (simp add: chunk_groups_def)
  qed
qed

lemma nonempty_stripped_concat:
  "nonempty_stripped (concat gs) = concat (map nonempty_stripped gs)"
  by (induction gs) (simp_all add: nonempty_stripped_append, simp add: nonempty_stripped_def)

text \<open>
  Claim C7, as stated: the concatenation of the chunks, without separators, has the
  paragraphs of the text.  Every chunk is stripped, so the concatenation loses the
  boundary between two chunks: the text \<open>"a\n\nb"\<close> with \<open>chunk_size = 1\<close> gives the
  chunks \<open>"a"\<close> and \<open>"b"\<close>, whose concatenation \<open>"ab"\<close> is one paragraph.
\<close>

theorem chunks_concat_counterexample:
  "[CHR ''a'', NL, NL, CHR ''b''] \<noteq> []
   \<and> chunk_text [CHR ''a'', NL, NL, CHR ''b''] 1 = [''a'', ''b'']
   \<and> paragraphs_of (concat (chunk_text [CHR ''a'', NL, NL, CHR ''b''] 1)) = [''ab'']
   \<and> paragraphs_of [CHR ''a'', NL, NL, CHR ''b''] = [''a'', ''b'']"
  by (simp add: chunk_text_def paragraphs_of_def nonempty_stripped_def strip_def
      isspace_def NL_def para_sep_def)

text \<open>
  Claim C7, amended: the chunks joined by the separator \<open>"\n\n"\<close> have the paragraphs of
  the text: the same sequence of non-empty paragraphs, up to whitespace at the
  boundaries of the paragraphs.  This holds for every text, the empty one too, and every
  \<open>chunk_size\<close>.
\<close>

theorem chunks_rejoin_paragraphs:
  "paragraphs_of (join_nn (chunk_text text chunk_size)) = paragraphs_of text"
proof -
  let ?G = "chunk_groups text chunk_size"
  have stripped: "\<forall>c \<in> set (chunk_text text chunk_size). c = [] \<or> last c \<noteq> NL"
  proof
    fix c assume "c \<in> set (chunk_text text chunk_size)"
    then obtain g where "c = strip (join_nn g)" by (auto simp: chunk_text_groups)
    then show "c = [] \<or> last c \<noteq> NL" using strip_ends [of "join_nn g"] isspace_NL by auto
  qed
  have each: "\<forall>g \<in> set ?G. paragraphs_of (strip (join_nn g)) = nonempty_stripped g"
  proof
    fix g assume g: "g \<in> set ?G"
    from chunk_groups_inv [OF g] obtain pre post
      where ne: "g \<noteq> []" and run: "split_nn text = pre @ g @ post"
      by (auto simp: bounded_group_def)
    have "tight (pre @ g @ post)" using tight_split_nn [of "text"] run by simp
    then have "tight g" by (rule tight_run)
    then have "split_nn (join_nn g) = g" using ne by (rule split_join)
    then show "paragraphs_of (strip (join_nn g)) = nonempty_stripped g"
      by (simp add: paragraphs_of_strip) (simp add: paragraphs_of_def)
  qed
  have "paragraphs_of (join_nn (chunk_text text chunk_size))
          = concat (map paragraphs_of (chunk_text text chunk_size))"
    using stripped by (rule paragraphs_of_join)
  also have "\<dots> = concat (map (\<lambda>g. paragraphs_of (strip (join_nn g))) ?G)"
    by (simp add: chunk_text_groups comp_def)
  also have "\<dots> = concat (map nonempty_stripped ?G)"
    using each by (metis (mono_tags, lifting) map_eq_conv)
  also have "\<dots> = nonempty_stripped (concat ?G)"
    by (simp add: nonempty_stripped_concat)
  also have "\<dots> = paragraphs_of text" by (rule chunk_groups_paragraphs)
  finally show ?thesis .
qed

theorem chunks_rejoin_paragraphs_witness:
  "paragraphs_of (join_nn (chunk_text [CHR ''a'', NL, NL, CHR ''b''] 1)) = [''a'', ''b'']
   \<and> paragraphs_of [CHR ''a'', NL, NL, CHR ''b''] = [''a'', ''b'']"
  using chunks_rejoin_paragraphs [of "[CHR ''a'', NL, NL, CHR ''b'']" 1]
  by (simp add: paragraphs_of_def nonempty_stripped_def strip_def isspace_def NL_def)

section \<open>Facts about the pipeline\<close>

lemma successful_texts_append:
  "successful_texts env (xs @ ys) = successful_texts env xs @ successful_texts env ys"
  by (induction xs) (auto split: response.splits)

lemma successful_costs_append:
  "successful_costs env (xs @ ys) = successful_costs env xs @ successful_costs env ys"
  by (induction xs) (auto split: response.splits)

lemma summarize_loop_eq:
  "summarize_loop env n ics (acc, tc, calls) =
     (acc @ successful_texts env (chunk_requests n ics),
      foldl (+) tc (successful_costs env (chunk_requests n ics)),
      calls @ chunk_requests n ics)"
proof (induction ics arbitrary: acc tc calls)
  case Nil
  show ?case by (simp add: chunk_requests_def)
next
  case (Cons ic ics)
  obtain i chunk where ic: "ic = (i, chunk)" by (cases ic)
  show ?case
    using Cons.IH
    by (cases "client env (ChunkReq chunk i n)")
       (simp_all add: ic chunk_requests_def summarize_chunk_def)
qed

lemma combiner_called_chunk_requests: "\<not> combiner_called (chunk_requests n ics)"
  by (induction ics) (auto simp: combiner_called_def chunk_requests_def)

lemma hd_split_nn_no_NL: "NL \<notin> set s \<Longrightarrow> split_nn s = [s]"
  by (induction s rule: split_nn.induct) auto

lemma split_nn_append_sep:
  "NL \<notin> set xs \<Longrightarrow> split_nn (xs @ NL # NL # ys) = xs # split_nn ys"
proof (induction xs rule: split_nn.induct)
  case 1
  show ?case by simp
next
  case (2 c)
  then show ?case by simp
next
  case (3 c d cs)
  then show ?case by auto
qed

lemma strip_id: "s = [] \<or> (\<not> isspace (hd s) \<and> \<not> isspace (last s)) \<Longrightarrow> strip s = s"
proof (cases s)
  case Nil
  then show ?thesis by (simp add: strip_def)
next
  case (Cons c cs)
  assume "s = [] \<or> (\<not> isspace (hd s) \<and> \<not> isspace (last s))"
  with Cons have h: "\<not> isspace c" and l: "\<not> isspace (last s)" by auto
  have "dropWhile isspace s = s" using h Cons by simp
  moreover have "dropWhile isspace (rev s) = rev s"
    using l Cons by (cases "rev s") (auto simp: hd_rev [symmetric] simp del: hd_rev)
  ultimately show ?thesis by (simp add: strip_def)
qed

lemma strip_replicate: "\<not> isspace c \<Longrightarrow> strip (replicate n c) = replicate n c"
  by (rule strip_id) (cases n, auto)

lemma not_space_a: "\<not> isspace CHR ''a''" "\<not> isspace CHR ''b''"
  by (simp_all add: isspace_def)

lemma chunk_text_one:
  "chunk_text (replicate 12000 CHR ''a'') 10000 = [replicate 12000 CHR ''a'']"
proof -
  have "split_nn (replicate 12000 CHR ''a'') = [replicate 12000 CHR ''a'']"
    by (rule hd_split_nn_no_NL) (simp add: NL_def)
  then show ?thesis
    by (simp add: chunk_text_def strip_replicate not_space_a)
qed

lemma chunk_text_two:
  "chunk_text (replicate 6000 CHR ''a'' @ NL # NL # replicate 6000 CHR ''b'') 10000
     = [replicate 6000 CHR ''a'', replicate 6000 CHR ''b'']"
proof -
  have "split_nn (replicate 6000 CHR ''a'' @ NL # NL # replicate 6000 CHR ''b'')
          = [replicate 6000 CHR ''a'', replicate 6000 CHR ''b'']"
  proof -
    have a: "NL \<notin> set (replicate 6000 CHR ''a'')" and b: "NL \<notin> set (replicate 6000 CHR ''b'')"
      by (simp_all add: NL_def)
    show ?thesis by (simp only: split_nn_append_sep [OF a] hd_split_nn_no_NL [OF b])
  qed
  then show ?thesis
    by (simp add: chunk_text_def strip_replicate not_space_a)
qed

lemma length_chunk_requests: "length (chunk_requests n ics) = length ics"
  by (simp add: chunk_requests_def)

lemma direct_notin_chunk_requests: "DirectReq x \<notin> set (chunk_requests n ics)"
  by (auto simp: chunk_requests_def)

lemma long_calls:
  "12000 \<le> length doc \<Longrightarrow>
   fst (advanced_summarize env doc) =
     ExtractReq (take 8000 doc)
       # chunk_requests (length (chunk_text doc 10000)) (enumerate 1 (chunk_text doc 10000))
       @ (if chunk_successes env doc \<noteq> [] \<and> length (chunk_text doc 10000) > 1
          then [CombineReq (join_nn (chunk_successes env doc))] else [])"
  unfolding advanced_summarize_def Let_def chunk_successes_def
  by (simp add: summarize_loop_eq combine_summaries_def split: response.splits)

lemma long_none:
  "12000 \<le> length doc \<Longrightarrow>
   snd (advanced_summarize env doc) = None \<longleftrightarrow> chunk_successes env doc = []"
  unfolding advanced_summarize_def Let_def chunk_successes_def
  by (simp add: summarize_loop_eq combine_summaries_def split: response.splits)

lemma long_result:
  "12000 \<le> length doc \<Longrightarrow> snd (advanced_summarize env doc) = Some r \<Longrightarrow>
   summary r =
     (if length (chunk_text doc 10000) > 1
      then (case client env (CombineReq (join_nn (chunk_successes env doc))) of
              Completion s p c t \<Rightarrow> s
            | Raises e \<Rightarrow> join_nn (chunk_successes env doc))
      else chunk_successes env doc ! 0)
   \<and> chunks_processed r = length (chunk_text doc 10000)"
  unfolding advanced_summarize_def Let_def chunk_successes_def
  by (auto simp add: summarize_loop_eq combine_summaries_def split: response.splits if_splits)

lemma short_run:
  "length doc < 12000 \<Longrightarrow>
   fst (advanced_summarize env doc) = [ExtractReq (take 8000 doc), DirectReq doc]
   \<and> snd (advanced_summarize env doc) =
       (case client env (DirectReq doc) of
          Completion s p c t \<Rightarrow>
            Some \<lparr>summary = s,
                  key_info = (case client env (ExtractReq (take 8000 doc)) of
                                Completion x p' c' t' \<Rightarrow> x
                              | Raises e \<Rightarrow> ''Extraction failed''),
                  total_cost = (case client env (ExtractReq (take 8000 doc)) of
                                Completion x p' c' t' \<Rightarrow> 0 + tariff env p' c'
                              | Raises e \<Rightarrow> 0) + tariff env p c,
                  chunks_processed = 1,
                  original_words = count_words False doc\<rparr>
        | Raises e \<Rightarrow> None)"
  unfolding advanced_summarize_def Let_def
  by (simp add: extract_key_info_def split: response.splits)

lemma key_info_result:
  "snd (advanced_summarize env doc) = Some r \<Longrightarrow>
   key_info r = (case client env (ExtractReq (take 8000 doc)) of
                   Completion x p c t \<Rightarrow> x
                 | Raises e \<Rightarrow> ''Extraction failed'')"
  unfolding advanced_summarize_def Let_def
  by (auto simp add: summarize_loop_eq combine_summaries_def extract_key_info_def
      split: response.splits if_splits)

lemma length_chunk_successes:
  "length (successful_texts env rqs) \<le> length rqs"
  by (induction rqs) (auto split: response.splits)

lemma successful_texts_upd:
  "\<forall>rq \<in> set rqs. \<not> is_extract rq \<Longrightarrow>
   successful_texts (env\<lparr>client := (client env)(ExtractReq a := resp)\<rparr>) rqs
     = successful_texts env rqs"
  by (induction rqs) (auto split: response.splits)

lemma chunk_requests_not_extract: "\<forall>rq \<in> set (chunk_requests n ics). \<not> is_extract rq"
  by (auto simp: chunk_requests_def)

lemma chunk_successes_upd:
  "chunk_successes (env\<lparr>client := (client env)(ExtractReq a := resp)\<rparr>) doc
     = chunk_successes env doc"
  by (simp add: chunk_successes_def Let_def successful_texts_upd chunk_requests_not_extract)

lemma summary_upd:
  "map_option summary
      (snd (advanced_summarize (env\<lparr>client := (client env)(ExtractReq a := resp)\<rparr>) doc))
     = map_option summary (snd (advanced_summarize env doc))"
proof (cases "length doc < 12000")
  case True
  then show ?thesis by (simp add: short_run split: response.splits)
next
  case False
  then have long: "12000 \<le> length doc" by simp
  let ?env' = "env\<lparr>client := (client env)(ExtractReq a := resp)\<rparr>"
  show ?thesis
  proof (cases "chunk_successes env doc = []")
    case True
    then show ?thesis
      using long_none [OF long, of env] long_none [OF long, of ?env']
      by (simp add: chunk_successes_upd)
  next
    case False
    then obtain r r' where r: "snd (advanced_summarize env doc) = Some r"
      and r': "snd (advanced_summarize ?env' doc) = Some r'"
      using long_none [OF long, of env] long_none [OF long, of ?env']
      by (auto simp add: chunk_successes_upd)
    have "summary r' = summary r"
      using long_result [OF long r] long_result [OF long r']
      by (simp add: chunk_successes_upd cong: response.case_cong)
    then show ?thesis using r r' by simp
  qed
qed

subsection \<open>combiner gate\<close>

text \<open>
  Claim C1, as stated: in the long-document path the Combiner is invoked exactly when at
  least two chunk summarizations succeeded, and with exactly one success that summary is
  the final summary and the Combiner is not called.  The code tests \<open>len(chunks) > 1\<close>,
  the number of chunks produced.  On a document of two chunks of which only the first is
  summarized, the Combiner is called with the one summary and its answer is the final
  summary.
\<close>

theorem combiner_gate_counterexample:
  "chunk_successes (stub_env client_first_chunk_only)
      (replicate 6000 CHR ''a'' @ NL # NL # replicate 6000 CHR ''b'') = [''first'']
   \<and> combiner_called (fst (advanced_summarize (stub_env client_first_chunk_only)
      (replicate 6000 CHR ''a'' @ NL # NL # replicate 6000 CHR ''b'')))
   \<and> map_option summary (snd (advanced_summarize (stub_env client_first_chunk_only)
      (replicate 6000 CHR ''a'' @ NL # NL # replicate 6000 CHR ''b''))) = Some ''combined''"
  by (simp add: chunk_successes_def advanced_summarize_def chunk_text_two chunk_requests_def
      stub_env_def combiner_called_def summarize_chunk_def extract_key_info_def combine_summaries_def)

text \<open>
  Claim C1, amended: in the long-document path the Combiner is invoked exactly when the
  chunker produced at least two chunks and at least one chunk summarization succeeded;
  when the chunker produced exactly one chunk and its summarization succeeded, that
  summary is the final summary and the Combiner is not called.
\<close>

theorem combiner_gate:
  "length doc \<ge> 12000 \<Longrightarrow>
   (combiner_called (fst (advanced_summarize env doc))
      \<longleftrightarrow> length (chunk_text doc 10000) > 1 \<and> chunk_successes env doc \<noteq> [])
   \<and> (length (chunk_text doc 10000) = 1 \<and> chunk_successes env doc \<noteq> []
        \<longrightarrow> (\<exists>r. snd (advanced_summarize env doc) = Some r
                 \<and> [summary r] = chunk_successes env doc))"
proof (intro conjI impI)
  assume long: "length doc \<ge> 12000"
  show "combiner_called (fst (advanced_summarize env doc))
      \<longleftrightarrow> length (chunk_text doc 10000) > 1 \<and> chunk_successes env doc \<noteq> []"
    using combiner_called_chunk_requests
    by (auto simp add: long_calls [OF long] combiner_called_def)
next
  assume long: "length doc \<ge> 12000"
    and one: "length (chunk_text doc 10000) = 1 \<and> chunk_successes env doc \<noteq> []"
  from one long_none [OF long, of env] obtain r
    where r: "snd (advanced_summarize env doc) = Some r" by auto
  have "length (chunk_successes env doc) \<le> 1"
    using length_chunk_successes [of env "chunk_requests (length (chunk_text doc 10000)) (enumerate 1 (chunk_text doc 10000))"] one
    by (simp add: chunk_successes_def length_chunk_requests)
  with one obtain s where s: "chunk_successes env doc = [s]"
    by (cases "chunk_successes env doc") auto
  have "summary r = s" using long_result [OF long r] one s by simp
  with r s show "\<exists>r. snd (advanced_summarize env doc) = Some r
                 \<and> [summary r] = chunk_successes env doc" by simp
qed

theorem combiner_gate_witness:
  "length (replicate 12000 CHR ''a'') \<ge> 12000
   \<and> length (chunk_text (replicate 12000 CHR ''a'') 10000) = 1
   \<and> chunk_successes (stub_env client_first_chunk_only) (replicate 12000 CHR ''a'') = [''first'']
   \<and> \<not> combiner_called (fst (advanced_summarize (stub_env client_first_chunk_only) (replicate 12000 CHR ''a'')))
   \<and> map_option summary (snd (advanced_summarize (stub_env client_first_chunk_only) (replicate 12000 CHR ''a''))) = Some ''first''"
proof -
  have s: "chunk_successes (stub_env client_first_chunk_only) (replicate 12000 CHR ''a'') = [''first'']"
    by (simp add: chunk_successes_def chunk_text_one chunk_requests_def stub_env_def)
  show ?thesis
    using combiner_gate [of "replicate 12000 CHR ''a''" "stub_env client_first_chunk_only"] s
    by (auto simp add: chunk_text_one)
qed

subsection \<open>no success reports failure\<close>

text \<open>
  Claim C2: on the long-document path, when no chunk summarization succeeds,
  \<open>advanced_summarize\<close> returns \<open>None\<close>; so it returns no result at all, and none with
  an empty summary.
\<close>

theorem no_success_reports_failure:
  "length doc \<ge> 12000 \<Longrightarrow> chunk_successes env doc = [] \<Longrightarrow>
   snd (advanced_summarize env doc) = None"
  by (simp add: long_none)

theorem no_success_reports_failure_witness:
  "length (replicate 12000 CHR ''a'') \<ge> 12000
   \<and> chunk_successes (stub_env client_extract_only) (replicate 12000 CHR ''a'') = []
   \<and> snd (advanced_summarize (stub_env client_extract_only) (replicate 12000 CHR ''a'')) = None"
proof -
  have s: "chunk_successes (stub_env client_extract_only) (replicate 12000 CHR ''a'') = []"
    by (simp add: chunk_successes_def chunk_text_one chunk_requests_def stub_env_def)
  show ?thesis
    using no_success_reports_failure [of "replicate 12000 CHR ''a''" "stub_env client_extract_only"] s by simp
qed

subsection \<open>routing threshold\<close>

text \<open>
  Claim C3: the route depends on the character count alone, with threshold 12000.  Below
  it the requests are the extraction and one direct summarization of the whole text, and
  a returned result reports one chunk.  From 12000 characters on, the requests after the
  extraction are the chunk summarizations of \<open>chunk_text text 10000\<close>, no direct
  summarization is requested, and a returned result reports the number of chunks.
\<close>

theorem routing_threshold:
  "(length doc < 12000 \<longrightarrow>
      fst (advanced_summarize env doc) = [ExtractReq (take 8000 doc), DirectReq doc]
      \<and> (\<forall>r. snd (advanced_summarize env doc) = Some r \<longrightarrow> chunks_processed r = 1))
   \<and> (length doc \<ge> 12000 \<longrightarrow>
      take (Suc (length (chunk_text doc 10000))) (fst (advanced_summarize env doc)) =
        ExtractReq (take 8000 doc)
          # chunk_requests (length (chunk_text doc 10000)) (enumerate 1 (chunk_text doc 10000))
      \<and> (\<forall>x. DirectReq x \<notin> set (fst (advanced_summarize env doc)))
      \<and> (\<forall>r. snd (advanced_summarize env doc) = Some r
             \<longrightarrow> chunks_processed r = length (chunk_text doc 10000)))"
proof (intro conjI impI allI)
  assume "length doc < 12000"
  then show "fst (advanced_summarize env doc) = [ExtractReq (take 8000 doc), DirectReq doc]"
    by (simp add: short_run)
next
  fix r
  assume "length doc < 12000" "snd (advanced_summarize env doc) = Some r"
  then show "chunks_processed r = 1"
    by (auto simp add: short_run split: response.splits)
next
  assume long: "length doc \<ge> 12000"
  show "take (Suc (length (chunk_text doc 10000))) (fst (advanced_summarize env doc)) =
        ExtractReq (take 8000 doc)
          # chunk_requests (length (chunk_text doc 10000)) (enumerate 1 (chunk_text doc 10000))"
    by (simp add: long_calls [OF long] length_chunk_requests)
next
  fix x
  assume long: "length doc \<ge> 12000"
  show "DirectReq x \<notin> set (fst (advanced_summarize env doc))"
    by (simp add: long_calls [OF long] direct_notin_chunk_requests)
next
  fix r
  assume "length doc \<ge> 12000" "snd (advanced_summarize env doc) = Some r"
  then show "chunks_processed r = length (chunk_text doc 10000)"
    using long_result by blast
qed

theorem routing_threshold_witness:
  "length (replicate 11999 CHR ''a'') < 12000
   \<and> fst (advanced_summarize (stub_env client_no_extract) (replicate 11999 CHR ''a''))
       = [ExtractReq (replicate 8000 CHR ''a''), DirectReq (replicate 11999 CHR ''a'')]
   \<and> map_option chunks_processed
        (snd (advanced_summarize (stub_env client_no_extract) (replicate 11999 CHR ''a''))) = Some 1
   \<and> length (replicate 12000 CHR ''a'') \<ge> 12000
   \<and> fst (advanced_summarize (stub_env client_no_extract) (replicate 12000 CHR ''a''))
       = [ExtractReq (replicate 8000 CHR ''a''), ChunkReq (replicate 12000 CHR ''a'') 1 1]
   \<and> map_option chunks_processed
        (snd (advanced_summarize (stub_env client_no_extract) (replicate 12000 CHR ''a''))) = Some 1"
proof -
  let ?E = "stub_env client_no_extract"
  have n1: "snd (advanced_summarize ?E (replicate 11999 CHR ''a'')) \<noteq> None"
    by (simp add: short_run stub_env_def)
  have n2: "snd (advanced_summarize ?E (replicate 12000 CHR ''a'')) \<noteq> None"
    by (simp add: long_none chunk_successes_def chunk_text_one chunk_requests_def stub_env_def)
  have c2: "fst (advanced_summarize ?E (replicate 12000 CHR ''a''))
       = [ExtractReq (replicate 8000 CHR ''a''), ChunkReq (replicate 12000 CHR ''a'') 1 1]"
    by (simp add: long_calls chunk_text_one chunk_requests_def)
  show ?thesis
    using routing_threshold [of "replicate 11999 CHR ''a''" ?E] routing_threshold [of "replicate 12000 CHR ''a''" ?E] n1 n2 c2
    by (auto simp add: chunk_text_one)
qed

subsection \<open>total cost additive\<close>

text \<open>
  Claim C4: the \<open>total_cost\<close> of a returned result is the sum, accumulated from \<open>0\<close> in the
  order of the calls, of the costs of the requests of the run that succeeded; a failed
  request adds nothing.  The result has no token total.  The statement holds for any
  interpretation of \<open>0\<close>, \<open>+\<close> and the tariff.
\<close>

theorem total_cost_additive:
  "snd (advanced_summarize env doc) = Some r \<Longrightarrow>
   total_cost r = foldl (+) 0 (successful_costs env (fst (advanced_summarize env doc)))"
  unfolding advanced_summarize_def Let_def
  by (auto simp: summarize_loop_eq successful_costs_append extract_key_info_def combine_summaries_def
      split: if_splits response.splits call_result.splits prod.splits)

theorem total_cost_additive_witness:
  "snd (advanced_summarize (stub_env client_no_combiner)
          (replicate 6000 CHR ''a'' @ NL # NL # replicate 6000 CHR ''b'')) \<noteq> None
   \<and> fst (advanced_summarize (stub_env client_no_combiner)
          (replicate 6000 CHR ''a'' @ NL # NL # replicate 6000 CHR ''b''))
      = [ExtractReq (replicate 6000 CHR ''a'' @ NL # NL # replicate 1998 CHR ''b''),
         ChunkReq (replicate 6000 CHR ''a'') 1 2, ChunkReq (replicate 6000 CHR ''b'') 2 2,
         CombineReq (''first'' @ [NL, NL] @ ''second'')]
   \<and> total_cost (the (snd (advanced_summarize (stub_env client_no_combiner)
          (replicate 6000 CHR ''a'' @ NL # NL # replicate 6000 CHR ''b''))))
      = 0.00135 + 0.00075 + 0.00075"
proof -
  let ?E = "stub_env client_no_combiner"
  let ?T = "replicate 6000 CHR ''a'' @ NL # NL # replicate 6000 CHR ''b''"
  have s: "chunk_successes ?E ?T = [''first'', ''second'']"
    by (simp add: chunk_successes_def chunk_text_two chunk_requests_def stub_env_def)
  have c: "fst (advanced_summarize ?E ?T)
      = [ExtractReq (replicate 6000 CHR ''a'' @ NL # NL # replicate 1998 CHR ''b''),
         ChunkReq (replicate 6000 CHR ''a'') 1 2, ChunkReq (replicate 6000 CHR ''b'') 2 2,
         CombineReq (''first'' @ [NL, NL] @ ''second'')]"
    by (simp add: long_calls s chunk_text_two chunk_requests_def para_sep_def)
  have n: "snd (advanced_summarize ?E ?T) \<noteq> None"
    by (simp add: long_none s)
  then obtain r where r: "snd (advanced_summarize ?E ?T) = Some r" by auto
  show ?thesis
    using total_cost_additive [OF r] r c by (simp add: stub_env_def tariff_real_def)
qed

subsection \<open>combiner fallback\<close>

text \<open>
  Claim C8: when the Combiner is invoked and its call fails, a result is returned all the
  same, and its summary is the successful chunk summaries joined by \<open>"\n\n"\<close>.
\<close>

theorem combiner_fallback:
  "combiner_called (fst (advanced_summarize env doc)) \<Longrightarrow>
   client env (CombineReq (join_nn (chunk_successes env doc))) = Raises e \<Longrightarrow>
   \<exists>r. snd (advanced_summarize env doc) = Some r
        \<and> summary r = join_nn (chunk_successes env doc)"
proof -
  assume called: "combiner_called (fst (advanced_summarize env doc))"
    and fails: "client env (CombineReq (join_nn (chunk_successes env doc))) = Raises e"
  have long: "length doc \<ge> 12000"
  proof (rule ccontr)
    assume "\<not> length doc \<ge> 12000"
    then have "length doc < 12000" by simp
    from short_run [OF this, of env] called show False
      by (simp add: combiner_called_def)
  qed
  from called have gate: "length (chunk_text doc 10000) > 1 \<and> chunk_successes env doc \<noteq> []"
    using combiner_called_chunk_requests
    by (auto simp add: long_calls [OF long] combiner_called_def split: if_splits)
  then obtain r where r: "snd (advanced_summarize env doc) = Some r"
    using long_none [OF long, of env] by auto
  have "summary r = join_nn (chunk_successes env doc)"
    using long_result [OF long r] gate fails by simp
  with r show ?thesis by simp
qed

theorem combiner_fallback_witness:
  "combiner_called (fst (advanced_summarize (stub_env client_no_combiner)
          (replicate 6000 CHR ''a'' @ NL # NL # replicate 6000 CHR ''b'')))
   \<and> client (stub_env client_no_combiner)
       (CombineReq (join_nn (chunk_successes (stub_env client_no_combiner)
          (replicate 6000 CHR ''a'' @ NL # NL # replicate 6000 CHR ''b'')))) = Raises ''down''
   \<and> map_option summary (snd (advanced_summarize (stub_env client_no_combiner)
          (replicate 6000 CHR ''a'' @ NL # NL # replicate 6000 CHR ''b'')))
      = Some (''first'' @ [NL, NL] @ ''second'')"
proof -
  let ?E = "stub_env client_no_combiner"
  let ?T = "replicate 6000 CHR ''a'' @ NL # NL # replicate 6000 CHR ''b''"
  have s: "chunk_successes ?E ?T = [''first'', ''second'']"
    by (simp add: chunk_successes_def chunk_text_two chunk_requests_def stub_env_def)
  have called: "combiner_called (fst (advanced_summarize ?E ?T))"
    by (simp add: long_calls s chunk_text_two chunk_requests_def combiner_called_def)
  have fails: "client ?E (CombineReq (join_nn (chunk_successes ?E ?T))) = Raises ''down''"
    by (simp add: stub_env_def)
  show ?thesis
    using combiner_fallback [OF called fails] called fails s by (auto simp add: para_sep_def)
qed

subsection \<open>extraction independence\<close>

text \<open>
  Claim C9, as stated: a failed summarization never prevents the output of a successful
  extraction from being reported.  On a short document whose extraction succeeds and
  whose direct summarization raises, the function returns \<open>None\<close> (the \<open>return None\<close> of
  the \<open>except\<close> branch): the extracted text is in no returned value.
\<close>

theorem extraction_independence_counterexample:
  "client (stub_env client_extract_only) (ExtractReq (take 8000 ''doc''))
      = Completion ''facts'' 1000 2000 3000
   \<and> advanced_summarize (stub_env client_extract_only) ''doc''
      = ([ExtractReq ''doc'', DirectReq ''doc''], None)"
  by (simp add: advanced_summarize_def stub_env_def extract_key_info_def)

text \<open>
  Claim C9, amended: whether a result is returned, and its summary, do not depend on the
  answer to the extraction request, so a failed extraction never prevents a successful
  summarization from returning a result; the \<open>key_info\<close> of a returned result is the
  extracted text, or \<open>Extraction failed\<close> when the extraction failed.  No result is
  returned exactly when the summarization fails (the direct call raises, or no chunk
  summarization succeeds), whatever the extraction gave.
\<close>

theorem extraction_independence:
  "map_option summary
      (snd (advanced_summarize (env\<lparr>client := (client env)(ExtractReq (take 8000 doc) := resp)\<rparr>) doc))
     = map_option summary (snd (advanced_summarize env doc))
   \<and> (\<forall>r e. client env (ExtractReq (take 8000 doc)) = Raises e
            \<and> snd (advanced_summarize env doc) = Some r
          \<longrightarrow> key_info r = ''Extraction failed'')
   \<and> (\<forall>r x p c t. client env (ExtractReq (take 8000 doc)) = Completion x p c t
            \<and> snd (advanced_summarize env doc) = Some r
          \<longrightarrow> key_info r = x)
   \<and> (snd (advanced_summarize env doc) = None
        \<longleftrightarrow> (if length doc < 12000 then \<exists>e. client env (DirectReq doc) = Raises e
             else chunk_successes env doc = []))"
proof (intro conjI allI impI)
  show "map_option summary
      (snd (advanced_summarize (env\<lparr>client := (client env)(ExtractReq (take 8000 doc) := resp)\<rparr>) doc))
     = map_option summary (snd (advanced_summarize env doc))"
    by (rule summary_upd)
next
  fix r e
  assume "client env (ExtractReq (take 8000 doc)) = Raises e
            \<and> snd (advanced_summarize env doc) = Some r"
  then show "key_info r = ''Extraction failed''"
    using key_info_result [of env doc r] by simp
next
  fix r x p c t
  assume "client env (ExtractReq (take 8000 doc)) = Completion x p c t
            \<and> snd (advanced_summarize env doc) = Some r"
  then show "key_info r = x"
    using key_info_result [of env doc r] by simp
next
  show "snd (advanced_summarize env doc) = None
        \<longleftrightarrow> (if length doc < 12000 then \<exists>e. client env (DirectReq doc) = Raises e
             else chunk_successes env doc = [])"
  proof (cases "length doc < 12000")
    case True
    then show ?thesis by (simp add: short_run split: response.splits)
  next
    case False
    then show ?thesis by (simp add: long_none)
  qed
qed

theorem extraction_independence_witness:
  "map_option summary
      (snd (advanced_summarize
         ((stub_env client_no_extract)\<lparr>client :=
            (client (stub_env client_no_extract))
              (ExtractReq (take 8000 ''doc'') := Completion ''facts'' 1000 2000 3000)\<rparr>) ''doc''))
     = Some ''text''
   \<and> client (stub_env client_no_extract) (ExtractReq (take 8000 ''doc'')) = Raises ''down''
   \<and> map_option key_info (snd (advanced_summarize (stub_env client_no_extract) ''doc''))
       = Some ''Extraction failed''
   \<and> snd (advanced_summarize (stub_env client_extract_only) ''doc'') = None"
  using extraction_independence [of "stub_env client_no_extract" "''doc''" "Completion ''facts'' 1000 2000 3000"]
        extraction_independence [of "stub_env client_extract_only" "''doc''" "Raises ''down''"]
  by (simp add: advanced_summarize_def stub_env_def extract_key_info_def)

subsection \<open>answer question stats\<close>

text \<open>
  Claim C10: for a question on a loaded document, when the call succeeds
  \<open>questions_asked\<close> grows by one and the session's total cost by the cost of the call,
  and nothing else changes; when the call fails the function returns a failure and the
  state is unchanged.
\<close>

theorem answer_question_stats:
  "doc_text st \<noteq> [] \<Longrightarrow>
   (case client env (AnswerReq question (take 30000 (doc_text st))) of
      Completion answer p c t \<Rightarrow>
        answer_question env st question =
          (Success answer t (tariff env p c),
           st\<lparr>questions_asked := questions_asked st + 1,
              session_cost := session_cost st + tariff env p c\<rparr>)
    | Raises e \<Rightarrow> answer_question env st question = (Failure e, st))"
  by (simp add: answer_question_def Let_def split: response.splits)

theorem answer_question_stats_witness:
  "doc_text \<lparr>doc_text = ''doc'', doc_filename = ''d.txt'', doc_word_count = 1,
              questions_asked = 2, session_cost = 0.5\<rparr> \<noteq> []
   \<and> answer_question (stub_env client_extract_only)
        \<lparr>doc_text = ''doc'', doc_filename = ''d.txt'', doc_word_count = 1,
         questions_asked = 2, session_cost = 0.5\<rparr> ''why''
      = (Failure ''down'',
         \<lparr>doc_text = ''doc'', doc_filename = ''d.txt'', doc_word_count = 1,
          questions_asked = 2, session_cost = 0.5\<rparr>)
   \<and> answer_question (stub_env client_no_extract)
        \<lparr>doc_text = ''doc'', doc_filename = ''d.txt'', doc_word_count = 1,
         questions_asked = 2, session_cost = 0.5\<rparr> ''why''
      = (Success ''text'' 2000 0.00075,
         \<lparr>doc_text = ''doc'', doc_filename = ''d.txt'', doc_word_count = 1,
          questions_asked = 3, session_cost = 0.50075\<rparr>)"
  using answer_question_stats [of "\<lparr>doc_text = ''doc'', doc_filename = ''d.txt'', doc_word_count = 1,
              questions_asked = 2, session_cost = 0.5\<rparr>" "stub_env client_extract_only" "''why''"]
        answer_question_stats [of "\<lparr>doc_text = ''doc'', doc_filename = ''d.txt'', doc_word_count = 1,
              questions_asked = 2, session_cost = 0.5\<rparr>" "stub_env client_no_extract" "''why''"]
  by (simp add: stub_env_def tariff_real_def)

end
